theory Spec2Isabelle
  imports Main
begin

section \<open>The ring buffer of blatt07/include/ringbuffer/ringbuffer.h\<close>

text \<open>
  The class template \<open>RingBuffer<T, size, alloc_t>\<close> keeps \<open>size\<close> slots of type
  \<open>T*\<close> in a heap array \<open>elems\<close>, together with the bookkeeping fields \<open>count\<close> and
  \<open>head\<close> and an allocator \<open>m_allocator\<close> that is only ever asked to deallocate.

  \<^item> A value of type \<open>T*\<close> is a \<open>'a ptr\<close>: the null pointer or the address \<open>Ptr a\<close>.
  \<^item> The allocator is instrumented: its state is the list of the pointers that were
    handed to \<open>deallocate\<close>, in call order. The second argument of \<open>deallocate\<close> is
    the constant 1 at both call sites and is not recorded.
  \<^item> The template parameter \<open>size\<close> is the first argument \<open>sz\<close> of every operation.
  \<^item> \<open>size_t\<close> and the destructor's \<open>int i\<close> are \<open>nat\<close>. The model covers the
    capacities for which \<open>size - 1\<close> is an \<open>int\<close> and \<open>2 * size\<close> a \<open>size_t\<close>
    (\<open>new T*[size]\<close> only succeeds when \<open>size\<close> pointers fit into the address
    space). On a state with \<open>head < size\<close> and \<open>count \<le> size\<close> every number the
    code computes is then representable (lemma \<open>index_bounds\<close>), so nothing wraps
    around; \<open>count - 1\<close> is only reached with \<open>count \<noteq> 0\<close>. The one subtraction
    that could wrap, \<open>size - 1\<close> for \<open>size = 0\<close>, is written out in the destructor
    loop.
  \<^item> Reading or writing \<open>elems[i]\<close> outside the array and \<open>% size\<close> with
    \<open>size = 0\<close> are undefined behaviour in C++. Every operation returns an option,
    and \<open>None\<close> stands for undefined behaviour.
\<close>

datatype 'a ptr = nullptr | Ptr 'a

type_synonym 'a allocator = "'a ptr list"

definition deallocate :: "'a ptr \<Rightarrow> 'a allocator \<Rightarrow> 'a allocator" where
  "deallocate p al = al @ [p]"

record 'a RingBuffer =
  m_allocator :: "'a allocator"
  count :: nat
  head :: nat
  elems :: "'a ptr list"

text \<open>
  The constructor: \<open>count(0), head(0)\<close>, and \<open>elems\<close> points to a new array of \<open>size\<close>
  slots (the source passes the array through the local \<open>array\<close>). \<open>new T*[size]\<close>
  does not initialise the slots; \<open>fresh i\<close> is the indeterminate value found in slot
  \<open>i\<close>. The allocator is default-constructed and has released nothing.
\<close>

definition RingBuffer_new :: "nat \<Rightarrow> (nat \<Rightarrow> 'a ptr) \<Rightarrow> 'a RingBuffer" where
  "RingBuffer_new sz fresh =
     \<lparr>m_allocator = [], count = 0, head = 0, elems = map fresh [0..<sz]\<rparr>"

text \<open>
  \<open>readBuffer\<close> returns the pointer together with the updated object. The source
  decrements \<open>count\<close> first and then moves \<open>head\<close>.
\<close>

definition readBuffer :: "nat \<Rightarrow> 'a RingBuffer \<Rightarrow> ('a ptr \<times> 'a RingBuffer) option" where
  "readBuffer sz b =
     (if count b = 0 then Some (nullptr, b)
      else if length (elems b) \<le> head b then None
      else
        let element = elems b ! head b;
            b1 = b\<lparr>count := count b - 1\<rparr>;
            b2 = (if head b1 + 1 = sz then b1\<lparr>head := 0\<rparr>
                  else b1\<lparr>head := head b1 + 1\<rparr>)
        in Some (element, b2))"

definition writeBuffer :: "nat \<Rightarrow> 'a ptr \<Rightarrow> 'a RingBuffer \<Rightarrow> 'a RingBuffer option" where
  "writeBuffer sz data b =
     (if count b = sz then
        (if length (elems b) \<le> head b then None
         else
           let b1 = b\<lparr>m_allocator := deallocate (elems b ! head b) (m_allocator b)\<rparr>
           in Some (b1\<lparr>elems := (elems b1)[head b1 := data]\<rparr>))
      else
        (if sz = 0 then None
         else if length (elems b) \<le> (head b + count b) mod sz then None
         else
           let b1 = b\<lparr>elems := (elems b)[(head b + count b) mod sz := data]\<rparr>
           in Some (b1\<lparr>count := count b1 + 1\<rparr>)))"

text \<open>
  The destructor's loop \<open>for(int i = head; count > 0; count--)\<close>: the body releases
  \<open>elems[i]\<close> and moves \<open>i\<close> to the next slot, wrapping at \<open>size - 1\<close>; then \<open>count\<close> is
  decremented. For \<open>size = 0\<close> the unsigned \<open>size - 1\<close> is the largest \<open>size_t\<close>, which
  no index equals, hence the conjunct \<open>0 < sz\<close>.
\<close>

function destroy_loop :: "nat \<Rightarrow> nat \<Rightarrow> 'a RingBuffer \<Rightarrow> 'a RingBuffer option" where
  "destroy_loop sz i b =
     (if 0 < count b then
        (if length (elems b) \<le> i then None
         else
           let b1 = b\<lparr>m_allocator := deallocate (elems b ! i) (m_allocator b)\<rparr>;
               i1 = (if 0 < sz \<and> i = sz - 1 then 0 else i + 1)
           in destroy_loop sz i1 (b1\<lparr>count := count b1 - 1\<rparr>))
      else Some b)"
  by pat_completeness auto
termination
  by (relation "measure (\<lambda>(sz, i, b). count b)") auto

declare destroy_loop.simps [simp del]

text \<open>
  The destructor runs two \<open>if\<close> statements in sequence; each of them ends with
  \<open>delete(elems)\<close>. The result is the object after the loop and the number of times
  \<open>delete(elems)\<close> was executed.
\<close>

definition RingBuffer_destroy :: "nat \<Rightarrow> 'a RingBuffer \<Rightarrow> ('a RingBuffer \<times> nat) option" where
  "RingBuffer_destroy sz b =
     (let deleted = (if count b = 0 then 1 else 0)
      in if 0 < count b then
           (case destroy_loop sz (head b) b of
              None \<Rightarrow> None
            | Some b1 \<Rightarrow> Some (b1, deleted + 1))
         else Some (b, deleted))"

subsection \<open>Sequences of calls\<close>

text \<open>\<open>writes sz ds\<close> calls \<open>writeBuffer\<close> with each pointer of \<open>ds\<close>, first to last.\<close>

fun writes :: "nat \<Rightarrow> 'a ptr list \<Rightarrow> 'a RingBuffer \<Rightarrow> 'a RingBuffer option" where
  "writes sz [] b = Some b"
| "writes sz (d # ds) b =
     (case writeBuffer sz d b of None \<Rightarrow> None | Some b1 \<Rightarrow> writes sz ds b1)"

text \<open>\<open>reads sz n\<close> calls \<open>readBuffer\<close> \<open>n\<close> times and collects the returned pointers.\<close>

fun reads :: "nat \<Rightarrow> nat \<Rightarrow> 'a RingBuffer \<Rightarrow> ('a ptr list \<times> 'a RingBuffer) option" where
  "reads sz 0 b = Some ([], b)"
| "reads sz (Suc n) b =
     (case readBuffer sz b of
        None \<Rightarrow> None
      | Some (p, b1) \<Rightarrow>
          (case reads sz n b1 of
             None \<Rightarrow> None
           | Some (ps, b2) \<Rightarrow> Some (p # ps, b2)))"

text \<open>An arbitrary client: any interleaving of reads and writes.\<close>

datatype 'a call = Read | Write "'a ptr"

fun run :: "nat \<Rightarrow> 'a call list \<Rightarrow> 'a RingBuffer \<Rightarrow> 'a RingBuffer option" where
  "run sz [] b = Some b"
| "run sz (Read # cs) b =
     (case readBuffer sz b of None \<Rightarrow> None | Some (p, b1) \<Rightarrow> run sz cs b1)"
| "run sz (Write d # cs) b =
     (case writeBuffer sz d b of None \<Rightarrow> None | Some b1 \<Rightarrow> run sz cs b1)"

subsection \<open>The data model of the specification\<close>

text \<open>
  The specification's invariant on a buffer of capacity \<open>sz\<close>: the array has \<open>sz\<close>
  slots, \<open>count \<le> sz\<close> and \<open>head < sz\<close>.
\<close>

definition buffer_inv :: "nat \<Rightarrow> 'a RingBuffer \<Rightarrow> bool" where
  "buffer_inv sz b \<longleftrightarrow> length (elems b) = sz \<and> count b \<le> sz \<and> head b < sz"

text \<open>
  The logical window: the slots \<open>(head + i) mod sz\<close> for \<open>i < count\<close>, oldest first,
  and the pointers they hold.
\<close>

definition window :: "nat \<Rightarrow> 'a RingBuffer \<Rightarrow> nat list" where
  "window sz b = map (\<lambda>i. (head b + i) mod sz) [0..<count b]"

definition contents :: "nat \<Rightarrow> 'a RingBuffer \<Rightarrow> 'a ptr list" where
  "contents sz b = map (\<lambda>s. elems b ! s) (window sz b)"

section \<open>Slots of the logical window\<close>

text \<open>
  Two offsets below the capacity that land on the same slot are equal: the window
  never laps itself.
\<close>

lemma mod_window_le:
  fixes h :: nat
  assumes "i \<le> j" "j < sz" "(h + i) mod sz = (h + j) mod sz"
  shows "i = j"
proof -
  from assms(1) have "h + i \<le> h + j" by simp
  with assms(3) [symmetric] have "sz dvd (h + j) - (h + i)"
    by (simp only: mod_eq_dvd_iff_nat)
  then have "sz dvd j - i" by simp
  moreover have "j - i < sz" using assms(2) by simp
  ultimately have "j - i = 0" by (meson dvd_imp_le not_less neq0_conv)
  with assms(1) show ?thesis by simp
qed

lemma mod_window_inj:
  fixes h :: nat
  assumes "i < sz" "j < sz" "(h + i) mod sz = (h + j) mod sz"
  shows "i = j"
proof (cases "i \<le> j")
  case True
  with assms show ?thesis by (simp add: mod_window_le)
next
  case False
  then have "j \<le> i" by simp
  from this assms(1) assms(3) [symmetric] have "j = i" by (rule mod_window_le)
  then show ?thesis by simp
qed

lemma distinct_window: "count b \<le> sz \<Longrightarrow> distinct (window sz b)"
proof -
  have "inj_on (\<lambda>i. (head b + i) mod sz) {0..<count b}" if "count b \<le> sz"
  proof (rule inj_onI)
    fix i j
    assume "i \<in> {0..<count b}" "j \<in> {0..<count b}"
      and eq: "(head b + i) mod sz = (head b + j) mod sz"
    with that have "i < sz" "j < sz" by simp_all
    from this eq show "i = j" by (rule mod_window_inj)
  qed
  then show "count b \<le> sz \<Longrightarrow> distinct (window sz b)"
    by (simp add: window_def distinct_map)
qed

lemma length_window [simp]: "length (window sz b) = count b"
  by (simp add: window_def)

lemma length_contents [simp]: "length (contents sz b) = count b"
  by (simp add: contents_def)

lemma window_slot_fresh:
  assumes "count b < sz"
  shows "(head b + count b) mod sz \<notin> set (window sz b)"
proof
  assume "(head b + count b) mod sz \<in> set (window sz b)"
  then obtain i where i: "i < count b" "(head b + count b) mod sz = (head b + i) mod sz"
    by (auto simp: window_def)
  with assms have "count b = i"
    by (intro mod_window_inj [of "count b" sz i "head b"]) simp_all
  with i show False by simp
qed

text \<open>
  On a state that satisfies the invariant, the sums the code forms stay below twice
  the capacity and the indices it uses stay below the capacity.
\<close>

lemma index_bounds:
  assumes "buffer_inv sz b"
  shows "head b + 1 \<le> sz" and "head b + count b < 2 * sz"
    and "count b \<noteq> sz \<Longrightarrow> count b + 1 \<le> sz"
    and "(head b + count b) mod sz < sz"
  using assms by (auto simp: buffer_inv_def)

section \<open>What a single call does\<close>

lemma writeBuffer_nonfull:
  assumes "length (elems b) = sz" "count b < sz"
  shows "writeBuffer sz d b =
           Some (b\<lparr>elems := (elems b)[(head b + count b) mod sz := d], count := count b + 1\<rparr>)"
proof -
  from assms(2) have "0 < sz" by simp
  then have "\<not> sz \<le> (head b + count b) mod sz" by (simp add: not_le)
  with assms show ?thesis by (simp add: writeBuffer_def Let_def)
qed

lemma writeBuffer_full:
  assumes "count b = sz" "head b < length (elems b)"
  shows "writeBuffer sz d b =
           Some (b\<lparr>m_allocator := m_allocator b @ [elems b ! head b],
                   elems := (elems b)[head b := d]\<rparr>)"
  using assms by (simp add: writeBuffer_def Let_def deallocate_def)

lemma readBuffer_nonempty:
  assumes "0 < count b" "head b < sz" "length (elems b) = sz"
  shows "readBuffer sz b =
           Some (elems b ! head b, b\<lparr>count := count b - 1, head := (head b + 1) mod sz\<rparr>)"
  using assms by (auto simp: readBuffer_def Let_def mod_Suc)

text \<open>
  The effect of both calls on the pointers of the logical window: a write into a
  buffer that is not full appends, a read from a buffer that is not empty removes
  the first.
\<close>

lemma contents_write_nonfull:
  assumes "length (elems b) = sz" "count b < sz"
  shows "contents sz (b\<lparr>elems := (elems b)[(head b + count b) mod sz := d], count := Suc (count b)\<rparr>)
           = contents sz b @ [d]"
proof -
  have "(head b + count b) mod sz \<noteq> (head b + i) mod sz" if "i < count b" for i
    using that assms(2) mod_window_inj [of i sz "count b" "head b"] by auto
  moreover have "(head b + count b) mod sz < length (elems b)"
    using assms by simp
  ultimately show ?thesis
    by (simp add: contents_def window_def)
qed

lemma contents_read:
  assumes "0 < count b"
  shows "contents sz (b\<lparr>count := count b - 1, head := (head b + 1) mod sz\<rparr>) = tl (contents sz b)"
    and "hd (contents sz b) = elems b ! (head b mod sz)"
proof -
  from assms obtain n where n: "count b = Suc n" by (cases "count b") auto
  show "contents sz (b\<lparr>count := count b - 1, head := (head b + 1) mod sz\<rparr>) = tl (contents sz b)"
    by (simp add: contents_def window_def n upt_rec [of 0 "Suc n"] map_Suc_upt [symmetric] mod_add_left_eq del: upt_Suc)
  show "hd (contents sz b) = elems b ! (head b mod sz)"
    by (simp add: contents_def window_def n upt_rec [of 0 "Suc n"] del: upt_Suc)
qed

lemma contents_new [simp]: "contents sz (RingBuffer_new sz fresh) = []"
  by (simp add: contents_def window_def RingBuffer_new_def)

section \<open>The invariant is kept\<close>

lemma buffer_inv_new: "0 < sz \<Longrightarrow> buffer_inv sz (RingBuffer_new sz fresh)"
  by (simp add: buffer_inv_def RingBuffer_new_def)

lemma readBuffer_inv:
  assumes "buffer_inv sz b"
  shows "\<exists>p b'. readBuffer sz b = Some (p, b') \<and> buffer_inv sz b'"
proof (cases "count b = 0")
  case True
  with assms show ?thesis by (simp add: readBuffer_def)
next
  case False
  with assms have "readBuffer sz b =
      Some (elems b ! head b, b\<lparr>count := count b - 1, head := (head b + 1) mod sz\<rparr>)"
    by (simp add: readBuffer_nonempty buffer_inv_def)
  moreover from assms have "buffer_inv sz (b\<lparr>count := count b - 1, head := (head b + 1) mod sz\<rparr>)"
    by (auto simp: buffer_inv_def)
  ultimately show ?thesis by simp
qed

lemma writeBuffer_inv:
  assumes "buffer_inv sz b"
  shows "\<exists>b'. writeBuffer sz d b = Some b' \<and> buffer_inv sz b'"
proof (cases "count b = sz")
  case True
  with assms show ?thesis
    by (simp add: writeBuffer_full buffer_inv_def)
next
  case False
  with assms have "count b < sz" by (simp add: buffer_inv_def)
  with assms show ?thesis
    by (simp add: writeBuffer_nonfull buffer_inv_def)
qed

lemma run_inv:
  "buffer_inv sz b \<Longrightarrow> \<exists>b'. run sz cs b = Some b' \<and> buffer_inv sz b'"
proof (induction cs arbitrary: b)
  case Nil
  then show ?case by simp
next
  case (Cons c cs)
  show ?case
  proof (cases c)
    case Read
    from readBuffer_inv [OF Cons.prems] obtain p b1
      where "readBuffer sz b = Some (p, b1)" "buffer_inv sz b1" by blast
    with Cons.IH [of b1] Read show ?thesis by simp
  next
    case (Write d)
    from writeBuffer_inv [OF Cons.prems] obtain b1
      where "writeBuffer sz d b = Some b1" "buffer_inv sz b1" by blast
    with Cons.IH [of b1] Write show ?thesis by simp
  qed
qed

section \<open>Sequences of writes and of reads\<close>

lemma writes_nonfull:
  assumes "length (elems b) = sz" "count b + length ds \<le> sz"
  shows "\<exists>b'. writes sz ds b = Some b' \<and> length (elems b') = sz \<and> head b' = head b
            \<and> count b' = count b + length ds \<and> m_allocator b' = m_allocator b
            \<and> contents sz b' = contents sz b @ ds"
  using assms
proof (induction ds arbitrary: b)
  case Nil
  then show ?case by simp
next
  case (Cons d ds)
  let ?b1 = "b\<lparr>elems := (elems b)[(head b + count b) mod sz := d], count := count b + 1\<rparr>"
  from Cons.prems have lt: "count b < sz" by simp
  with Cons.prems have w: "writeBuffer sz d b = Some ?b1"
    by (simp add: writeBuffer_nonfull)
  from Cons.prems lt have c: "contents sz ?b1 = contents sz b @ [d]"
    by (simp add: contents_write_nonfull)
  from Cons.prems have "length (elems ?b1) = sz" "count ?b1 + length ds \<le> sz" by simp_all
  from Cons.IH [OF this] obtain b' where
    "writes sz ds ?b1 = Some b'" "length (elems b') = sz" "head b' = head ?b1"
    "count b' = count ?b1 + length ds" "m_allocator b' = m_allocator ?b1"
    "contents sz b' = contents sz ?b1 @ ds" by blast
  with w c show ?case by simp
qed

lemma reads_nonempty:
  assumes "buffer_inv sz b" "n \<le> count b"
  shows "\<exists>b'. reads sz n b = Some (take n (contents sz b), b') \<and> buffer_inv sz b'
            \<and> count b' = count b - n \<and> contents sz b' = drop n (contents sz b)
            \<and> m_allocator b' = m_allocator b \<and> elems b' = elems b"
  using assms
proof (induction n arbitrary: b)
  case 0
  then show ?case by simp
next
  case (Suc n)
  let ?b1 = "b\<lparr>count := count b - 1, head := (head b + 1) mod sz\<rparr>"
  from Suc.prems have pos: "0 < count b" by simp
  with Suc.prems have r: "readBuffer sz b = Some (elems b ! head b, ?b1)"
    by (simp add: readBuffer_nonempty buffer_inv_def)
  from pos have tl: "contents sz ?b1 = tl (contents sz b)"
    by (rule contents_read)
  from pos Suc.prems have hd: "hd (contents sz b) = elems b ! head b"
    by (simp add: contents_read buffer_inv_def)
  from pos have ne: "contents sz b \<noteq> []"
    by (metis length_contents list.size(3) less_numeral_extra(3))
  from Suc.prems have "buffer_inv sz ?b1" "n \<le> count ?b1"
    by (auto simp: buffer_inv_def)
  from Suc.IH [OF this] obtain b' where
    "reads sz n ?b1 = Some (take n (contents sz ?b1), b')" "buffer_inv sz b'"
    "count b' = count ?b1 - n" "contents sz b' = drop n (contents sz ?b1)"
    "m_allocator b' = m_allocator ?b1" "elems b' = elems ?b1" by blast
  with r tl hd ne show ?case
    by (cases "contents sz b") (simp_all add: drop_Suc)
qed

section \<open>The destructor loop\<close>

text \<open>
  Started at a slot \<open>i\<close> of the array, the loop releases the pointers of the slots
  \<open>i, i + 1, ...\<close> modulo the capacity, \<open>count\<close> of them, and leaves \<open>count = 0\<close>.
\<close>

lemma destroy_loop_window:
  assumes "length (elems b) = sz" "i < sz" "count b = n"
  shows "destroy_loop sz i b =
           Some (b\<lparr>m_allocator := m_allocator b @ map (\<lambda>k. elems b ! ((i + k) mod sz)) [0..<n],
                   count := 0\<rparr>)"
  using assms
proof (induction n arbitrary: b i)
  case 0
  then show ?case by (simp add: destroy_loop.simps)
next
  case (Suc n)
  let ?i1 = "(i + 1) mod sz"
  let ?b1 = "b\<lparr>m_allocator := m_allocator b @ [elems b ! i], count := n\<rparr>"
  from Suc.prems have i1: "(if 0 < sz \<and> i = sz - 1 then 0 else i + 1) = ?i1"
    by (auto simp: mod_Suc)
  from Suc.prems have step: "destroy_loop sz i b = destroy_loop sz ?i1 ?b1"
    by (subst destroy_loop.simps) (simp add: Let_def deallocate_def i1)
  from Suc.prems have "length (elems ?b1) = sz" "?i1 < sz" "count ?b1 = n" by simp_all
  from Suc.IH [OF this] have "destroy_loop sz ?i1 ?b1 =
      Some (?b1\<lparr>m_allocator := m_allocator ?b1 @ map (\<lambda>k. elems ?b1 ! ((?i1 + k) mod sz)) [0..<n],
               count := 0\<rparr>)" .
  moreover have "[elems b ! i] @ map (\<lambda>k. elems b ! ((?i1 + k) mod sz)) [0..<n]
      = map (\<lambda>k. elems b ! ((i + k) mod sz)) [0..<Suc n]"
    using Suc.prems(2)
    by (simp add: upt_rec [of 0 "Suc n"] map_Suc_upt [symmetric] mod_add_left_eq del: upt_Suc)
  ultimately show ?case using step by simp
qed

section \<open>Writing\<close>

text \<open>
  C1. The buffer of capacity 3 is full after \<open>A\<close>, \<open>B\<close>, \<open>C\<close> were written, with
  \<open>head = 0\<close>. \<open>writeBuffer(D)\<close> releases the pointer \<open>A\<close> of slot \<open>head\<close>, stores \<open>D\<close>
  in that slot and leaves \<open>count = 3\<close>, but \<open>head\<close> is still 0 afterwards, whereas
  \<open>(head + 1) mod 3\<close> is 1.
\<close>

theorem writeBuffer_full_head_stays:
  "writes 3 [Ptr ''A'', Ptr ''B'', Ptr ''C''] (RingBuffer_new 3 (\<lambda>i. nullptr))
     = Some \<lparr>m_allocator = [], count = 3, head = 0,
              elems = [Ptr ''A'', Ptr ''B'', Ptr ''C'']\<rparr>
   \<and> writeBuffer 3 (Ptr ''D'') \<lparr>m_allocator = [], count = 3, head = 0,
        elems = [Ptr ''A'', Ptr ''B'', Ptr ''C'']\<rparr>
       = Some \<lparr>m_allocator = [Ptr ''A''], count = 3, head = 0,
                elems = [Ptr ''D'', Ptr ''B'', Ptr ''C'']\<rparr>
   \<and> (head \<lparr>m_allocator = [], count = 3, head = 0,
        elems = [Ptr ''A'', Ptr ''B'', Ptr ''C'']\<rparr> + 1) mod 3 = (1::nat)"
  by (simp add: RingBuffer_new_def writeBuffer_def deallocate_def Let_def upt_rec)

text \<open>
  C6. On a buffer of capacity \<open>sz\<close> that satisfies the invariant and has
  \<open>count < sz\<close>, \<open>writeBuffer\<close> stores the
  pointer in slot \<open>(head + count) mod sz\<close> and increments \<open>count\<close>. That slot is not
  one of the logical window, so no stored pointer is displaced: the window's pointers
  are the old ones followed by the new one. The allocator is not called and \<open>head\<close>
  stays.
\<close>

theorem writeBuffer_not_full:
  assumes "buffer_inv sz b" "count b < sz"
  shows "\<exists>b'. writeBuffer sz d b = Some b'
            \<and> elems b' = (elems b)[(head b + count b) mod sz := d]
            \<and> elems b' ! ((head b + count b) mod sz) = d
            \<and> count b' = count b + 1
            \<and> head b' = head b
            \<and> m_allocator b' = m_allocator b
            \<and> (head b + count b) mod sz \<notin> set (window sz b)
            \<and> contents sz b' = contents sz b @ [d]"
proof -
  let ?b' = "b\<lparr>elems := (elems b)[(head b + count b) mod sz := d], count := count b + 1\<rparr>"
  from assms(1) have len: "length (elems b) = sz"
    by (simp add: buffer_inv_def)
  from len assms(2) have "writeBuffer sz d b = Some ?b'"
    by (rule writeBuffer_nonfull)
  moreover from len assms(2) have "(head b + count b) mod sz < length (elems b)" by simp
  moreover from assms(2) have "(head b + count b) mod sz \<notin> set (window sz b)"
    by (rule window_slot_fresh)
  moreover from len assms(2) have "contents sz ?b' = contents sz b @ [d]"
    by (simp add: contents_write_nonfull)
  ultimately show ?thesis by simp
qed

theorem writeBuffer_not_full_witness:
  "buffer_inv 3 \<lparr>m_allocator = [], count = 2, head = 2,
        elems = [Ptr ''B'', nullptr, Ptr ''A'']\<rparr>
   \<and> count \<lparr>m_allocator = [], count = 2, head = 2,
        elems = [Ptr ''B'', nullptr, Ptr ''A'']\<rparr> < 3
   \<and> writeBuffer 3 (Ptr ''C'') \<lparr>m_allocator = [], count = 2, head = 2,
        elems = [Ptr ''B'', nullptr, Ptr ''A'']\<rparr>
       = Some \<lparr>m_allocator = [], count = 3, head = 2,
                elems = [Ptr ''B'', Ptr ''C'', Ptr ''A'']\<rparr>
   \<and> window 3 \<lparr>m_allocator = [], count = 2, head = 2,
        elems = [Ptr ''B'', nullptr, Ptr ''A'']\<rparr> = [2, 0]"
  using writeBuffer_not_full [of 3 "\<lparr>m_allocator = [], count = 2, head = 2,
        elems = [Ptr ''B'', nullptr, Ptr ''A'']\<rparr>" "Ptr ''C''"]
  by (simp add: buffer_inv_def writeBuffer_def window_def Let_def upt_rec numeral_2_eq_2)

text \<open>
  C9. \<open>writeBuffer\<close> never assigns \<open>head\<close>: whenever the call is defined, in the
  full and in the non-full branch alike, \<open>head\<close> is what it was; and the call is
  defined on every buffer that satisfies the invariant.
\<close>

theorem writeBuffer_head_unchanged:
  "(buffer_inv sz b \<longrightarrow> writeBuffer sz d b \<noteq> None)
   \<and> (\<forall>b'. writeBuffer sz d b = Some b' \<longrightarrow> head b' = head b)"
proof
  show "buffer_inv sz b \<longrightarrow> writeBuffer sz d b \<noteq> None"
    using writeBuffer_inv [of sz b d] by auto
  show "\<forall>b'. writeBuffer sz d b = Some b' \<longrightarrow> head b' = head b"
    by (auto simp: writeBuffer_def Let_def split: if_splits)
qed

theorem writeBuffer_head_unchanged_witness:
  "buffer_inv 3 \<lparr>m_allocator = [], count = 3, head = 1,
        elems = [Ptr ''C'', Ptr ''A'', Ptr ''B'']\<rparr>
   \<and> writeBuffer 3 (Ptr ''D'') \<lparr>m_allocator = [], count = 3, head = 1,
        elems = [Ptr ''C'', Ptr ''A'', Ptr ''B'']\<rparr>
       = Some \<lparr>m_allocator = [Ptr ''A''], count = 3, head = 1,
                elems = [Ptr ''C'', Ptr ''D'', Ptr ''B'']\<rparr>
   \<and> writeBuffer 3 (Ptr ''D'') \<lparr>m_allocator = [], count = 3, head = 1,
        elems = [Ptr ''C'', Ptr ''A'', Ptr ''B'']\<rparr> \<noteq> None"
  using writeBuffer_head_unchanged [of 3 "\<lparr>m_allocator = [], count = 3, head = 1,
        elems = [Ptr ''C'', Ptr ''A'', Ptr ''B'']\<rparr>" "Ptr ''D''"]
  by (simp add: buffer_inv_def writeBuffer_def deallocate_def Let_def)

section \<open>Reading\<close>

text \<open>
  C5. On a buffer with \<open>count = 0\<close>, \<open>readBuffer\<close> returns \<open>nullptr\<close> and the object is
  unchanged: \<open>head\<close>, \<open>count\<close>, the array and the allocator are what they were.
\<close>

theorem readBuffer_empty:
  "count b = 0 \<Longrightarrow> readBuffer sz b = Some (nullptr, b)"
  by (simp add: readBuffer_def)

theorem readBuffer_empty_witness:
  "count (RingBuffer_new 3 (\<lambda>i. nullptr :: nat ptr)) = 0
   \<and> readBuffer 3 (RingBuffer_new 3 (\<lambda>i. nullptr :: nat ptr))
       = Some (nullptr, RingBuffer_new 3 (\<lambda>i. nullptr))"
  using readBuffer_empty [of "RingBuffer_new 3 (\<lambda>i. nullptr :: nat ptr)" 3]
  by (simp add: RingBuffer_new_def)

text \<open>
  C7. On a buffer of capacity \<open>sz\<close> with \<open>count > 0\<close> and \<open>head\<close> inside the array,
  \<open>readBuffer\<close> returns the pointer of slot \<open>head\<close>, sets \<open>head\<close> to
  \<open>(head + 1) mod sz\<close> and decrements \<open>count\<close>. The allocator is not called and the
  array is not written.
\<close>

theorem readBuffer_not_empty:
  assumes "length (elems b) = sz" "head b < sz" "0 < count b"
  shows "\<exists>b'. readBuffer sz b = Some (elems b ! head b, b')
            \<and> head b' = (head b + 1) mod sz
            \<and> count b' = count b - 1
            \<and> m_allocator b' = m_allocator b
            \<and> elems b' = elems b"
  using assms by (simp add: readBuffer_nonempty)

theorem readBuffer_not_empty_witness:
  "length (elems \<lparr>m_allocator = [], count = 2, head = 2,
             elems = [Ptr ''B'', nullptr, Ptr ''A'']\<rparr>) = 3
   \<and> head \<lparr>m_allocator = [], count = 2, head = 2,
        elems = [Ptr ''B'', nullptr, Ptr ''A'']\<rparr> < 3
   \<and> 0 < count \<lparr>m_allocator = [], count = 2, head = 2,
        elems = [Ptr ''B'', nullptr, Ptr ''A'']\<rparr>
   \<and> readBuffer 3 \<lparr>m_allocator = [], count = 2, head = 2,
        elems = [Ptr ''B'', nullptr, Ptr ''A'']\<rparr>
       = Some (Ptr ''A'', \<lparr>m_allocator = [], count = 1, head = 0,
                elems = [Ptr ''B'', nullptr, Ptr ''A'']\<rparr>)"
  using readBuffer_not_empty [of "\<lparr>m_allocator = [], count = 2, head = 2,
        elems = [Ptr ''B'', nullptr, Ptr ''A'']\<rparr>" 3]
  by (simp add: readBuffer_def Let_def)

text \<open>
  C10. On a full buffer, the read that follows a \<open>writeBuffer(d)\<close> returns \<open>d\<close>: the
  pointer written last comes out before the ones written earlier.
\<close>

theorem write_full_then_read:
  assumes "buffer_inv sz b" "count b = sz"
  shows "\<exists>b1 b2. writeBuffer sz d b = Some b1 \<and> readBuffer sz b1 = Some (d, b2)"
proof -
  let ?b1 = "b\<lparr>m_allocator := m_allocator b @ [elems b ! head b],
                elems := (elems b)[head b := d]\<rparr>"
  from assms have h: "head b < length (elems b)" and pos: "0 < count b"
    by (auto simp: buffer_inv_def)
  with assms(2) have "writeBuffer sz d b = Some ?b1"
    by (simp add: writeBuffer_full)
  moreover from assms h pos have "readBuffer sz ?b1 =
      Some (d, ?b1\<lparr>count := count ?b1 - 1, head := (head ?b1 + 1) mod sz\<rparr>)"
    by (simp add: readBuffer_nonempty buffer_inv_def)
  ultimately show ?thesis by blast
qed

theorem write_full_then_read_witness:
  "buffer_inv 3 \<lparr>m_allocator = [], count = 3, head = 1,
        elems = [Ptr ''C'', Ptr ''A'', Ptr ''B'']\<rparr>
   \<and> count \<lparr>m_allocator = [], count = 3, head = 1,
        elems = [Ptr ''C'', Ptr ''A'', Ptr ''B'']\<rparr> = 3
   \<and> writeBuffer 3 (Ptr ''D'') \<lparr>m_allocator = [], count = 3, head = 1,
        elems = [Ptr ''C'', Ptr ''A'', Ptr ''B'']\<rparr>
       = Some \<lparr>m_allocator = [Ptr ''A''], count = 3, head = 1,
                elems = [Ptr ''C'', Ptr ''D'', Ptr ''B'']\<rparr>
   \<and> readBuffer 3 \<lparr>m_allocator = [Ptr ''A''], count = 3, head = 1,
        elems = [Ptr ''C'', Ptr ''D'', Ptr ''B'']\<rparr>
       = Some (Ptr ''D'', \<lparr>m_allocator = [Ptr ''A''], count = 2, head = 2,
                elems = [Ptr ''C'', Ptr ''D'', Ptr ''B'']\<rparr>)"
  using write_full_then_read [of 3 "\<lparr>m_allocator = [], count = 3, head = 1,
        elems = [Ptr ''C'', Ptr ''A'', Ptr ''B'']\<rparr>" "Ptr ''D''"]
  by (simp add: buffer_inv_def writeBuffer_def readBuffer_def deallocate_def Let_def)

section \<open>First in, first out\<close>

text \<open>
  C3. For \<open>k \<le> sz\<close>, writing \<open>k\<close> pointers into a newly constructed buffer and then
  reading \<open>k\<close> times returns the \<open>k\<close> pointers in the order in which they were
  written, and \<open>count\<close> is 0 afterwards.
\<close>

theorem writes_then_reads_fifo:
  assumes "length ws \<le> sz"
  shows "\<exists>b1 b2. writes sz ws (RingBuffer_new sz fresh) = Some b1
            \<and> reads sz (length ws) b1 = Some (ws, b2) \<and> count b2 = 0"
proof (cases "sz = 0")
  case True
  with assms show ?thesis by (simp add: RingBuffer_new_def)
next
  case False
  let ?b0 = "RingBuffer_new sz fresh :: 'a RingBuffer"
  from assms have "length (elems ?b0) = sz" "count ?b0 + length ws \<le> sz"
    by (simp_all add: RingBuffer_new_def)
  from writes_nonfull [OF this] obtain b1 where
    w: "writes sz ws ?b0 = Some b1" and b1: "length (elems b1) = sz" "head b1 = head ?b0"
      "count b1 = count ?b0 + length ws" "contents sz b1 = contents sz ?b0 @ ws"
    by blast
  from b1 False assms have inv: "buffer_inv sz b1" and n: "length ws \<le> count b1"
    by (simp_all add: buffer_inv_def RingBuffer_new_def)
  from reads_nonempty [OF inv n] obtain b2 where
    "reads sz (length ws) b1 = Some (take (length ws) (contents sz b1), b2)"
    "count b2 = count b1 - length ws" by blast
  moreover have "count ?b0 = 0" by (simp add: RingBuffer_new_def)
  ultimately show ?thesis using w b1 by simp
qed

theorem writes_then_reads_fifo_witness:
  "length [Ptr ''A'', Ptr ''B''] \<le> (3::nat)
   \<and> writes 3 [Ptr ''A'', Ptr ''B''] (RingBuffer_new 3 (\<lambda>i. nullptr))
       = Some \<lparr>m_allocator = [], count = 2, head = 0, elems = [Ptr ''A'', Ptr ''B'', nullptr]\<rparr>
   \<and> reads 3 2 \<lparr>m_allocator = [], count = 2, head = 0, elems = [Ptr ''A'', Ptr ''B'', nullptr]\<rparr>
       = Some ([Ptr ''A'', Ptr ''B''],
           \<lparr>m_allocator = [], count = 0, head = 2, elems = [Ptr ''A'', Ptr ''B'', nullptr]\<rparr>)"
  using writes_then_reads_fifo [of "[Ptr ''A'', Ptr ''B'']" 3 "\<lambda>i. nullptr"]
  by (simp add: RingBuffer_new_def writeBuffer_def readBuffer_def Let_def upt_rec numeral_2_eq_2)

text \<open>
  C2. Capacity 3, and \<open>A\<close>, \<open>B\<close>, \<open>C\<close>, \<open>D\<close> written into a new buffer: \<open>A\<close> is
  released by the fourth write, and the three reads that follow return \<open>D\<close>, \<open>B\<close>,
  \<open>C\<close>, not \<open>B\<close>, \<open>C\<close>, \<open>D\<close>.
\<close>

theorem overwrite_then_reads_order:
  "writes 3 [Ptr ''A'', Ptr ''B'', Ptr ''C'', Ptr ''D''] (RingBuffer_new 3 (\<lambda>i. nullptr))
     = Some \<lparr>m_allocator = [Ptr ''A''], count = 3, head = 0,
              elems = [Ptr ''D'', Ptr ''B'', Ptr ''C'']\<rparr>
   \<and> reads 3 3 \<lparr>m_allocator = [Ptr ''A''], count = 3, head = 0,
        elems = [Ptr ''D'', Ptr ''B'', Ptr ''C'']\<rparr>
       = Some ([Ptr ''D'', Ptr ''B'', Ptr ''C''],
           \<lparr>m_allocator = [Ptr ''A''], count = 0, head = 0,
              elems = [Ptr ''D'', Ptr ''B'', Ptr ''C'']\<rparr>)
   \<and> [Ptr ''D'', Ptr ''B'', Ptr ''C''] \<noteq> [Ptr ''B'', Ptr ''C'', Ptr ''D'']"
proof -
  let ?b4 = "\<lparr>m_allocator = [Ptr ''A''], count = 3, head = 0,
              elems = [Ptr ''D'', Ptr ''B'', Ptr ''C'']\<rparr>"
  have "writes 3 [Ptr ''A'', Ptr ''B'', Ptr ''C'', Ptr ''D''] (RingBuffer_new 3 (\<lambda>i. nullptr))
      = Some ?b4"
    by (simp add: RingBuffer_new_def writeBuffer_def deallocate_def Let_def upt_rec)
  moreover have "reads 3 (Suc (Suc (Suc 0))) ?b4
      = Some ([Ptr ''D'', Ptr ''B'', Ptr ''C''],
           \<lparr>m_allocator = [Ptr ''A''], count = 0, head = 0,
              elems = [Ptr ''D'', Ptr ''B'', Ptr ''C'']\<rparr>)"
    by (simp add: readBuffer_def Let_def)
  then have "reads 3 3 ?b4
      = Some ([Ptr ''D'', Ptr ''B'', Ptr ''C''],
           \<lparr>m_allocator = [Ptr ''A''], count = 0, head = 0,
              elems = [Ptr ''D'', Ptr ''B'', Ptr ''C'']\<rparr>)"
    by (simp only: numeral_3_eq_3)
  ultimately show ?thesis by simp
qed

section \<open>Bounds of the bookkeeping\<close>

text \<open>
  C4. For a capacity \<open>sz > 0\<close>, every sequence of reads and writes on a newly
  constructed buffer is defined and ends in a state with \<open>count \<le> sz\<close> and
  \<open>head < sz\<close>; both fields are natural numbers, so neither is negative.
\<close>

theorem reachable_bounds:
  assumes "0 < sz"
  shows "\<exists>b. run sz cs (RingBuffer_new sz fresh) = Some b \<and> count b \<le> sz \<and> head b < sz"
proof -
  from assms have "buffer_inv sz (RingBuffer_new sz fresh :: 'a RingBuffer)"
    by (rule buffer_inv_new)
  from run_inv [OF this] show ?thesis
    by (auto simp: buffer_inv_def)
qed

theorem reachable_bounds_witness:
  "(0::nat) < 3
   \<and> run 3 [Write (Ptr ''A''), Write (Ptr ''B''), Read, Write (Ptr ''C''), Write (Ptr ''D''),
        Write (Ptr ''E'')] (RingBuffer_new 3 (\<lambda>i. nullptr))
       = Some \<lparr>m_allocator = [Ptr ''B''], count = 3, head = 1,
                elems = [Ptr ''D'', Ptr ''E'', Ptr ''C'']\<rparr>"
  using reachable_bounds [of 3 "[Write (Ptr ''A''), Write (Ptr ''B''), Read, Write (Ptr ''C''),
      Write (Ptr ''D''), Write (Ptr ''E'')]" "\<lambda>i. nullptr"]
  by (simp add: RingBuffer_new_def writeBuffer_def readBuffer_def deallocate_def Let_def upt_rec)

section \<open>Destruction\<close>

text \<open>
  C8. On a buffer that satisfies the invariant and holds \<open>count\<close> pointers, the
  destructor hands to the allocator exactly the pointers of the slots of the logical
  window, in window order. The window has \<open>count\<close> slots and no slot occurs twice in
  it, so there are \<open>count\<close> releases, one for each slot of the window and none for
  any other slot; for \<open>count = 0\<close> the window is empty and nothing is released.
  \<open>delete(elems)\<close> is executed once.
\<close>

theorem destroy_releases_window:
  assumes "buffer_inv sz b"
  shows "\<exists>b'. RingBuffer_destroy sz b = Some (b', 1)
            \<and> m_allocator b' = m_allocator b @ map (\<lambda>s. elems b ! s) (window sz b)
            \<and> length (window sz b) = count b
            \<and> distinct (window sz b)
            \<and> count b' = 0 \<and> head b' = head b \<and> elems b' = elems b"
proof (cases "count b = 0")
  case True
  with assms show ?thesis
    by (simp add: RingBuffer_destroy_def window_def)
next
  case False
  from assms have len: "length (elems b) = sz" and h: "head b < sz" and c: "count b \<le> sz"
    by (simp_all add: buffer_inv_def)
  from destroy_loop_window [OF len h refl]
  have loop: "destroy_loop sz (head b) b =
      Some (b\<lparr>m_allocator := m_allocator b @ map (\<lambda>k. elems b ! ((head b + k) mod sz)) [0..<count b],
              count := 0\<rparr>)" .
  have "map (\<lambda>s. elems b ! s) (window sz b) =
      map (\<lambda>k. elems b ! ((head b + k) mod sz)) [0..<count b]"
    by (simp add: window_def comp_def)
  with loop False distinct_window [OF c] show ?thesis
    by (simp add: RingBuffer_destroy_def)
qed

theorem destroy_releases_window_witness:
  "buffer_inv 3 \<lparr>m_allocator = [Ptr ''Z''], count = 2, head = 2,
        elems = [Ptr ''B'', Ptr ''X'', Ptr ''A'']\<rparr>
   \<and> RingBuffer_destroy 3 \<lparr>m_allocator = [Ptr ''Z''], count = 2, head = 2,
        elems = [Ptr ''B'', Ptr ''X'', Ptr ''A'']\<rparr>
       = Some (\<lparr>m_allocator = [Ptr ''Z'', Ptr ''A'', Ptr ''B''], count = 0, head = 2,
                elems = [Ptr ''B'', Ptr ''X'', Ptr ''A'']\<rparr>, 1)
   \<and> window 3 \<lparr>m_allocator = [Ptr ''Z''], count = 2, head = 2,
        elems = [Ptr ''B'', Ptr ''X'', Ptr ''A'']\<rparr> = [2, 0]"
proof -
  let ?b = "\<lparr>m_allocator = [Ptr ''Z''], count = 2, head = 2,
        elems = [Ptr ''B'', Ptr ''X'', Ptr ''A'']\<rparr>"
  have inv: "buffer_inv 3 ?b" by (simp add: buffer_inv_def)
  have win: "window 3 ?b = [2, 0]" by (simp add: window_def upt_rec numeral_2_eq_2)
  from destroy_releases_window [OF inv] obtain b' where
    "RingBuffer_destroy 3 ?b = Some (b', 1)"
    "m_allocator b' = m_allocator ?b @ map (\<lambda>s. elems ?b ! s) (window 3 ?b)"
    "count b' = 0" "head b' = head ?b" "elems b' = elems ?b" by blast
  with win have "RingBuffer_destroy 3 ?b
       = Some (\<lparr>m_allocator = [Ptr ''Z'', Ptr ''A'', Ptr ''B''], count = 0, head = 2,
                elems = [Ptr ''B'', Ptr ''X'', Ptr ''A'']\<rparr>, 1)"
    by (cases b') simp
  with inv win show ?thesis by simp
qed

end
